theory Spec2Isabelle
  imports Main "HOL-Library.List_Lexorder" "HOL-Library.Char_ord"
begin

section \<open>Data model of the data service (services/data-service/main.go)\<close>

text \<open>
  A handler is a function from its decoded input and the state of the service to its reply
  and the new state. What it takes from its environment (the clock, the identifier
  generator, the outcome of a storage transaction) is an argument. Logging, the Prometheus
  collectors and the HTTP routing are left out.

  A \<open>time.Time\<close> is modelled as an instant, counted in nanoseconds; \<open>Before\<close> is \<open><\<close> and
  \<open>Add\<close> is addition. The monotonic clock reading and the location pointer of a Go time
  value are not part of the model.
\<close>

type_synonym time = int

text \<open>
  \<open>DataRecord\<close> (main.go, lines 24-31). \<open>Data\<close> is a Go \<open>map[string]string\<close>; a nil map
  and an empty map are both the empty map here. \<open>ProcessedAt\<close> is a pointer that may be nil.
\<close>

record DataRecord =
  ID :: string
  Type :: string
  Data :: "string \<rightharpoonup> string"
  Timestamp :: time
  Processed :: bool
  ProcessedAt :: "time option"

text \<open>
  \<open>ProcessingJob\<close> (lines 41-48). Its identifier field is called \<open>ID\<close> in the source too;
  it is \<open>JobID\<close> here to keep it apart from the record's field.
\<close>

record ProcessingJob =
  JobID :: string
  Status :: string
  StartTime :: time
  EndTime :: "time option"
  Records :: int
  Error :: string


subsection \<open>Stored values and the JSON codec\<close>

text \<open>
  The values of the bucket are byte strings that the service only ever reads through
  \<open>json.Unmarshal\<close>. A stored value is therefore either a document that unmarshals to a
  record, or bytes on which \<open>json.Unmarshal\<close> returns an error. \<open>encoding/json\<close> is a
  library outside the repository; what is taken from it is that unmarshalling the bytes that
  \<open>json.Marshal\<close> produced for a record gives that record back, and that marshalling a
  \<open>DataRecord\<close> does not fail.
\<close>

datatype stored = Doc DataRecord | Garbage string

definition json_Marshal :: "DataRecord \<Rightarrow> stored" where
  "json_Marshal record = Doc record"

fun json_Unmarshal :: "stored \<Rightarrow> DataRecord option" where
  "json_Unmarshal (Doc record) = Some record"
| "json_Unmarshal (Garbage bytes) = None"

subsection \<open>The records bucket\<close>

text \<open>
  A bolt bucket keeps its entries in ascending byte order of the keys, and a cursor walks them
  in that order. It is an association list here; \<open>bucket_ok\<close> says that the keys ascend
  strictly. Strings are ordered lexicographically by character code, as \<open>bytes.Compare\<close>
  orders keys.
\<close>

type_synonym bucket = "(string \<times> stored) list"

definition bucket_ok :: "bucket \<Rightarrow> bool" where
  "bucket_ok b = sorted_wrt (<) (map fst b)"

fun Put :: "string \<Rightarrow> stored \<Rightarrow> bucket \<Rightarrow> bucket" where
  "Put k v [] = [(k, v)]"
| "Put k v (e # es) =
     (if k < fst e then (k, v) # e # es
      else if k = fst e then (k, v) # es
      else e # Put k v es)"

definition Get :: "string \<Rightarrow> bucket \<Rightarrow> stored option" where
  "Get k b = map_of b k"

definition Delete :: "string \<Rightarrow> bucket \<Rightarrow> bucket" where
  "Delete k b = filter (\<lambda>e. fst e \<noteq> k) b"

text \<open>
  The state of the service: the records bucket of the database and the in-memory job
  registry \<open>jobs\<close> (line 53).
\<close>

record state =
  records :: bucket
  jobs :: "string \<rightharpoonup> ProcessingJob"

text \<open>
  What a handler writes to the client: a status code with a body, or \<open>http.Error\<close> with a
  status code (the text of the error message is left out).
\<close>

datatype 'a response = Reply nat 'a | Failure nat

section \<open>The batch processor\<close>

text \<open>
  The scan of \<open>processPendingRecords\<close> (lines 624-633): the cursor loop runs while
  \<open>len(records) < batchSize\<close>, skips a value that does not unmarshal, and appends a record
  whose \<open>Processed\<close> is false. \<open>batchSize\<close> is a Go \<open>int\<close>.
\<close>

fun selectPending :: "int \<Rightarrow> bucket \<Rightarrow> DataRecord list \<Rightarrow> DataRecord list" where
  "selectPending batchSize [] acc = acc"
| "selectPending batchSize (e # es) acc =
     (if int (length acc) < batchSize then
        (case json_Unmarshal (snd e) of
           None \<Rightarrow> selectPending batchSize es acc
         | Some record \<Rightarrow>
             if \<not> Processed record then selectPending batchSize es (acc @ [record])
             else selectPending batchSize es acc)
      else acc)"

text \<open>
  The body of the processing loop for one batch member (lines 648-660): the record gets
  \<open>Processed = true\<close> and \<open>ProcessedAt = &now\<close> and is put under \<open>record.ID\<close> in an update
  transaction of its own. \<open>putOk\<close> tells whether that transaction succeeded; when it did not,
  the bucket is as before and the loop goes on.
\<close>

definition updateRecord :: "time \<Rightarrow> bool \<Rightarrow> DataRecord \<Rightarrow> bucket \<Rightarrow> bucket" where
  "updateRecord now putOk record b =
     (let record' = record\<lparr>Processed := True, ProcessedAt := Some now\<rparr>
      in if putOk then Put (ID record') (json_Marshal record') b else b)"

text \<open>
  The processing loop (lines 642-674). \<open>nowAt i\<close> is what \<open>time.Now()\<close> returns at line 648
  for the batch member with index \<open>i\<close>, and \<open>putOk i\<close> is the outcome of its update.
\<close>

fun processRecords ::
  "(nat \<Rightarrow> time) \<Rightarrow> (nat \<Rightarrow> bool) \<Rightarrow> nat \<Rightarrow> DataRecord list \<Rightarrow> bucket \<Rightarrow> bucket" where
  "processRecords nowAt putOk i [] b = b"
| "processRecords nowAt putOk i (record # rest) b =
     processRecords nowAt putOk (Suc i) rest (updateRecord (nowAt i) (putOk i) record b)"

text \<open>
  \<open>processPendingRecords\<close> (lines 616-675). \<open>scanOk\<close> is the outcome of the transaction
  that runs the scan; the function returns at once when it failed or selected nothing.
\<close>

definition processPendingRecords ::
  "int \<Rightarrow> bool \<Rightarrow> (nat \<Rightarrow> time) \<Rightarrow> (nat \<Rightarrow> bool) \<Rightarrow> state \<Rightarrow> state" where
  "processPendingRecords batchSize scanOk nowAt putOk s =
     (let selected = selectPending batchSize (records s) []
      in if \<not> scanOk \<or> length selected = 0 then s
         else s\<lparr>records := processRecords nowAt putOk 0 selected (records s)\<rparr>)"

text \<open>A stored value counts as a pending record when it unmarshals and is not processed.\<close>

definition pending :: "stored \<Rightarrow> bool" where
  "pending v = (case json_Unmarshal v of None \<Rightarrow> False | Some record \<Rightarrow> \<not> Processed record)"

section \<open>Record handlers\<close>

text \<open>
  \<open>createRecordHandler\<close> (lines 333-368). \<open>body\<close> is the outcome of decoding the request
  body into a \<open>DataRecord\<close> (\<open>Inl\<close> when the decoder returned an error), \<open>uuid\<close> is what
  \<open>uuid.New().String()\<close> returned and \<open>now\<close> what \<open>time.Now()\<close> returned; \<open>putOk\<close> is the
  outcome of the update transaction. The three assignments of lines 340-342 are the only
  ones made to the decoded record.
\<close>

definition createRecordHandler ::
  "string \<Rightarrow> time \<Rightarrow> bool \<Rightarrow> string + DataRecord \<Rightarrow> state \<Rightarrow> DataRecord response \<times> state" where
  "createRecordHandler uuid now putOk body s =
     (case body of
        Inl err \<Rightarrow> (Failure 400, s)
      | Inr decoded \<Rightarrow>
          (let record = decoded\<lparr>ID := uuid, Timestamp := now, Processed := False\<rparr>
           in if putOk
              then (Reply 201 record,
                    s\<lparr>records := Put (ID record) (json_Marshal record) (records s)\<rparr>)
              else (Failure 500, s)))"



text \<open>
  \<open>getRecordHandler\<close> (lines 401-422): an absent key and a value that does not unmarshal both
  end in status 404.
\<close>

definition getRecordHandler :: "string \<Rightarrow> state \<Rightarrow> DataRecord response" where
  "getRecordHandler recordID s =
     (case Get recordID (records s) of
        None \<Rightarrow> Failure 404
      | Some data \<Rightarrow>
          (case json_Unmarshal data of
             None \<Rightarrow> Failure 404
           | Some record \<Rightarrow> Reply 200 record))"

text \<open>
  One round of the loop of \<open>generateTestData\<close> (lines 521-545). The record type, the payload
  and the timestamp are drawn at random in the source; they are arguments here.
\<close>

definition generateRecord ::
  "string \<Rightarrow> string \<Rightarrow> (string \<rightharpoonup> string) \<Rightarrow> time \<Rightarrow> bool \<Rightarrow> state \<Rightarrow> state" where
  "generateRecord uuid recordType payload stamp putOk s =
     (let record = \<lparr>ID = uuid, Type = recordType, Data = payload, Timestamp = stamp,
                    Processed = False, ProcessedAt = None\<rparr>
      in if putOk then s\<lparr>records := Put (ID record) (json_Marshal record) (records s)\<rparr>
         else s)"

section \<open>Metrics aggregation\<close>



section \<open>The retention sweep\<close>

text \<open>
  Lines 560-567 of \<open>cleanupOldRecords\<close>: the cutoff is 24 hours before now unless the query
  parameter is non-empty and \<open>time.Parse(time.RFC3339, _)\<close>, here \<open>parseRFC3339\<close>, accepts it.
\<close>

definition cutoffTime :: "(string \<Rightarrow> time option) \<Rightarrow> time \<Rightarrow> string \<Rightarrow> time" where
  "cutoffTime parseRFC3339 now cutoffStr =
     (let dflt = now - 24 * 3600000000000
      in if cutoffStr \<noteq> []
         then (case parseRFC3339 cutoffStr of Some parsed \<Rightarrow> parsed | None \<Rightarrow> dflt)
         else dflt)"

text \<open>
  The cursor loop of lines 574-585. The cursor walks the entries that the bucket had when the
  transaction began (the first list), while \<open>b.Delete(k)\<close> acts on the bucket of the
  transaction (the second). \<open>delOk k\<close> tells whether \<open>b.Delete(k)\<close> returned no error; only
  then is the counter incremented.
\<close>

fun sweep :: "(string \<Rightarrow> bool) \<Rightarrow> time \<Rightarrow> bucket \<Rightarrow> bucket \<Rightarrow> int \<Rightarrow> bucket \<times> int" where
  "sweep delOk cutoff [] b deletedCount = (b, deletedCount)"
| "sweep delOk cutoff (e # es) b deletedCount =
     (case json_Unmarshal (snd e) of
        None \<Rightarrow> sweep delOk cutoff es b deletedCount
      | Some record \<Rightarrow>
          if Timestamp record < cutoff
          then (if delOk (fst e)
                then sweep delOk cutoff es (Delete (fst e) b) (deletedCount + 1)
                else sweep delOk cutoff es b deletedCount)
          else sweep delOk cutoff es b deletedCount)"

record CleanupReply =
  deleted_count :: int
  cutoff_time :: string

text \<open>
  \<open>cleanupOldRecords\<close> (lines 558-602). \<open>commitOk\<close> is the outcome of the update transaction
  as a whole: when it fails nothing is deleted and the handler answers 500. The reply carries
  the counter and the cutoff rendered by \<open>Format(time.RFC3339)\<close>, here \<open>formatRFC3339\<close>.
\<close>

definition cleanupOldRecords ::
  "(string \<Rightarrow> time option) \<Rightarrow> (time \<Rightarrow> string) \<Rightarrow> time \<Rightarrow> (string \<Rightarrow> bool) \<Rightarrow> bool \<Rightarrow>
   string \<Rightarrow> state \<Rightarrow> CleanupReply response \<times> state" where
  "cleanupOldRecords parseRFC3339 formatRFC3339 now delOk commitOk cutoffStr s =
     (let cutoff = cutoffTime parseRFC3339 now cutoffStr
      in case sweep delOk cutoff (records s) (records s) 0 of
           (b, deletedCount) \<Rightarrow>
             if commitOk
             then (Reply 200 \<lparr>deleted_count = deletedCount,
                              cutoff_time = formatRFC3339 cutoff\<rparr>,
                   s\<lparr>records := b\<rparr>)
             else (Failure 500, s))"

section \<open>The job coordinator\<close>

text \<open>\<open>createJobHandler\<close> (lines 424-441); the run of the job is \<open>processJob\<close> below.\<close>

definition createJobHandler :: "string \<Rightarrow> time \<Rightarrow> state \<Rightarrow> ProcessingJob response \<times> state" where
  "createJobHandler uuid now s =
     (let job = \<lparr>JobID = uuid, Status = ''pending'', StartTime = now, EndTime = None,
                 Records = 0, Error = []\<rparr>
      in (Reply 201 job, s\<lparr>jobs := (jobs s)(JobID job \<mapsto> job)\<rparr>))"

definition getJobHandler :: "string \<Rightarrow> state \<Rightarrow> ProcessingJob response" where
  "getJobHandler jobID s =
     (case jobs s jobID of None \<Rightarrow> Failure 404 | Some job \<Rightarrow> Reply 200 job)"

text \<open>
  \<open>processJob\<close> (lines 677-699): the job is marked running, the batch processor runs with
  batch size 20, and the job is stored again with status completed, the end time, and
  \<open>Records = 20\<close> (line 693).
\<close>

definition processJob ::
  "string \<Rightarrow> time \<Rightarrow> bool \<Rightarrow> (nat \<Rightarrow> time) \<Rightarrow> (nat \<Rightarrow> bool) \<Rightarrow> state \<Rightarrow> state" where
  "processJob jobID now scanOk nowAt putOk s =
     (case jobs s jobID of
        None \<Rightarrow> s
      | Some job \<Rightarrow>
          (let running = job\<lparr>Status := ''running''\<rparr>;
               s1 = s\<lparr>jobs := (jobs s)(jobID \<mapsto> running)\<rparr>;
               s2 = processPendingRecords 20 scanOk nowAt putOk s1;
               completed = running\<lparr>Status := ''completed'', EndTime := Some now, Records := 20\<rparr>
           in s2\<lparr>jobs := (jobs s2)(jobID \<mapsto> completed)\<rparr>))"

section \<open>Executions\<close>

text \<open>
  The operations that change the state, each with what it takes from its environment. An
  update transaction is atomic in the store, so a run of the service is a sequence of these.
  \<open>UpdateOne\<close> is a single update of the processing loop, for a record that an earlier scan
  selected: with it, a sequence also covers a batch whose updates are interleaved with other
  operations.
\<close>

datatype op =
    CreateRecord string time bool "string + DataRecord"
  | GenerateRecord string string "string \<rightharpoonup> string" time bool
  | ProcessBatch int bool "nat \<Rightarrow> time" "nat \<Rightarrow> bool"
  | UpdateOne time bool DataRecord
  | CreateJob string time
  | RunJob string time bool "nat \<Rightarrow> time" "nat \<Rightarrow> bool"
  | Cleanup "string \<Rightarrow> time option" "time \<Rightarrow> string" time "string \<Rightarrow> bool" bool string

fun apply_op :: "op \<Rightarrow> state \<Rightarrow> state" where
  "apply_op (CreateRecord uuid now putOk body) s = snd (createRecordHandler uuid now putOk body s)"
| "apply_op (GenerateRecord uuid recordType payload stamp putOk) s =
     generateRecord uuid recordType payload stamp putOk s"
| "apply_op (ProcessBatch batchSize scanOk nowAt putOk) s =
     processPendingRecords batchSize scanOk nowAt putOk s"
| "apply_op (UpdateOne now putOk record) s =
     s\<lparr>records := updateRecord now putOk record (records s)\<rparr>"
| "apply_op (CreateJob uuid now) s = snd (createJobHandler uuid now s)"
| "apply_op (RunJob jobID now scanOk nowAt putOk) s = processJob jobID now scanOk nowAt putOk s"
| "apply_op (Cleanup parseRFC3339 formatRFC3339 now delOk commitOk cutoffStr) s =
     snd (cleanupOldRecords parseRFC3339 formatRFC3339 now delOk commitOk cutoffStr s)"

text \<open>
  An identifier from \<open>uuid.New()\<close> is taken to be new: it is not a key of the bucket when a
  record is created under it.
\<close>

fun fresh_ids :: "op \<Rightarrow> state \<Rightarrow> bool" where
  "fresh_ids (CreateRecord uuid now putOk body) s = (uuid \<notin> set (map fst (records s)))"
| "fresh_ids (GenerateRecord uuid recordType payload stamp putOk) s =
     (uuid \<notin> set (map fst (records s)))"
| "fresh_ids other s = True"

text \<open>The states that a sequence of operations goes through, the first one included.\<close>

fun run :: "op list \<Rightarrow> state \<Rightarrow> state list" where
  "run [] s = [s]"
| "run (x # xs) s = s # run xs (apply_op x s)"

fun run_ok :: "op list \<Rightarrow> state \<Rightarrow> bool" where
  "run_ok [] s = True"
| "run_ok (x # xs) s = (fresh_ids x s \<and> run_ok xs (apply_op x s))"

section \<open>Notions used in the statements\<close>

text \<open>The keys of the pending records, in cursor order.\<close>

definition pendingKeys :: "bucket \<Rightarrow> string list" where
  "pendingKeys b = map fst (filter (\<lambda>e. pending (snd e)) b)"

text \<open>
  Every record is stored under its own identifier, as all the writers of the service
  (\<open>createRecordHandler\<close>, \<open>generateTestData\<close>, \<open>processPendingRecords\<close>) store it.
\<close>

definition keys_match :: "bucket \<Rightarrow> bool" where
  "keys_match b =
     list_all (\<lambda>e. case json_Unmarshal (snd e) of None \<Rightarrow> True
                   | Some record \<Rightarrow> ID record = fst e) b"

text \<open>The key holds a record that is processed: in a bucket, and in the bucket of a state.\<close>

definition processedIn :: "string \<Rightarrow> bucket \<Rightarrow> bool" where
  "processedIn k b =
     (case Get k b of
        None \<Rightarrow> False
      | Some v \<Rightarrow> (case json_Unmarshal v of None \<Rightarrow> False | Some record \<Rightarrow> Processed record))"

definition isProcessed :: "string \<Rightarrow> state \<Rightarrow> bool" where
  "isProcessed k s = processedIn k (records s)"

text \<open>The entry is a record whose timestamp is strictly before the cutoff.\<close>

definition expired :: "time \<Rightarrow> string \<times> stored \<Rightarrow> bool" where
  "expired cutoff e =
     (case json_Unmarshal (snd e) of None \<Rightarrow> False | Some record \<Rightarrow> Timestamp record < cutoff)"


text \<open>The pending records of a bucket, in cursor order.\<close>

definition pendingRecords :: "bucket \<Rightarrow> DataRecord list" where
  "pendingRecords b =
     List.map_filter (\<lambda>e. case json_Unmarshal (snd e) of None \<Rightarrow> None
                           | Some record \<Rightarrow> if Processed record then None else Some record) b"

text \<open>
  In every record of the bucket, \<open>ProcessedAt\<close> is set exactly when \<open>Processed\<close> is true.
\<close>

definition stamps_match :: "bucket \<Rightarrow> bool" where
  "stamps_match b =
     list_all (\<lambda>e. case json_Unmarshal (snd e) of None \<Rightarrow> True
                   | Some record \<Rightarrow> (ProcessedAt record \<noteq> None) = Processed record) b"

text \<open>The request body of a create-record operation carries no \<open>processed_at\<close>.\<close>

fun plain_body :: "op \<Rightarrow> bool" where
  "plain_body (CreateRecord uuid now putOk (Inr decoded)) = (ProcessedAt decoded = None)"
| "plain_body other = True"

text \<open>The number of places in a list of flags where \<open>False\<close> is followed by \<open>True\<close>.\<close>

fun flips :: "bool list \<Rightarrow> nat" where
  "flips (a # b # rest) = (if \<not> a \<and> b then 1 else 0) + flips (b # rest)"
| "flips [a] = 0"
| "flips [] = 0"

section \<open>Sample data\<close>

text \<open>Concrete records, states and environments at which the statements below are evaluated.\<close>

definition hour :: time where "hour = 3600000000000"

definition sampleRecord :: "string \<Rightarrow> time \<Rightarrow> DataRecord" where
  "sampleRecord k stamp =
     \<lparr>ID = k, Type = ''user_event'', Data = [''source'' \<mapsto> ''generator''], Timestamp = stamp,
      Processed = False, ProcessedAt = None\<rparr>"

definition doneRecord :: "string \<Rightarrow> time \<Rightarrow> time \<Rightarrow> DataRecord" where
  "doneRecord k stamp at = (sampleRecord k stamp)\<lparr>Processed := True, ProcessedAt := Some at\<rparr>"

definition emptyState :: state where
  "emptyState = \<lparr>records = [], jobs = Map.empty\<rparr>"

definition sampleClock :: "nat \<Rightarrow> time" where
  "sampleClock i = 2000 + int i"

definition allOk :: "'a \<Rightarrow> bool" where
  "allOk x = True"

definition clientBody :: DataRecord where
  "clientBody =
     \<lparr>ID = ''chosen-by-client'', Type = ''user_event'', Data = [''source'' \<mapsto> ''web''],
      Timestamp = 7, Processed = True, ProcessedAt = Some 5\<rparr>"

definition createdRecord :: DataRecord where
  "createdRecord = clientBody\<lparr>ID := ''id-1'', Timestamp := 100, Processed := False\<rparr>"

definition createdState :: state where
  "createdState = emptyState\<lparr>records := [(''id-1'', Doc createdRecord)]\<rparr>"

definition fifteenPending :: state where
  "fifteenPending =
     \<lparr>records = map (\<lambda>k. (k, Doc (sampleRecord k 1000)))
        [''r01'', ''r02'', ''r03'', ''r04'', ''r05'', ''r06'', ''r07'', ''r08'', ''r09'', ''r10'',
         ''r11'', ''r12'', ''r13'', ''r14'', ''r15''],
      jobs = Map.empty\<rparr>"

definition mixedState :: state where
  "mixedState =
     \<lparr>records =
        [(''a'', Doc (sampleRecord ''a'' (52 * hour))),
         (''b'', Garbage ''{''),
         (''c'', Doc (sampleRecord ''c'' (76 * hour))),
         (''d'', Doc (doneRecord ''d'' (99 * hour) (99 * hour + 1)))],
      jobs = Map.empty\<rparr>"

definition settledState :: state where
  "settledState =
     \<lparr>records =
        [(''b'', Garbage ''{''),
         (''d'', Doc (doneRecord ''d'' (99 * hour) (99 * hour + 1)))],
      jobs = Map.empty\<rparr>"

text \<open>A parser and a formatter that know one time, hour 76 of the epoch.\<close>

definition sampleParse :: "string \<Rightarrow> time option" where
  "sampleParse str = (if str = ''1970-01-04T04:00:00Z'' then Some (76 * hour) else None)"

definition sampleFormat :: "time \<Rightarrow> string" where
  "sampleFormat t = (if t = 76 * hour then ''1970-01-04T04:00:00Z'' else ''another time'')"

definition onePending :: state where
  "onePending = \<lparr>records = [(''r1'', Doc (sampleRecord ''r1'' (99 * hour)))], jobs = Map.empty\<rparr>"

definition sampleOps :: "op list" where
  "sampleOps =
     [CreateRecord ''r2'' (99 * hour) True (Inr clientBody),
      ProcessBatch 1 True sampleClock allOk,
      Cleanup sampleParse sampleFormat (100 * hour) allOk True [],
      CreateJob ''job-1'' (100 * hour),
      RunJob ''job-1'' (101 * hour) True sampleClock allOk]"

definition oneProcessed :: state where
  "oneProcessed =
     \<lparr>records = [(''r1'', Doc (doneRecord ''r1'' (99 * hour) 2000)),
                 (''r2'', Doc (sampleRecord ''r2'' (10 * hour)))],
      jobs = Map.empty\<rparr>"

definition laterOps :: "op list" where
  "laterOps =
     [Cleanup sampleParse sampleFormat (100 * hour) allOk True [],
      GenerateRecord ''r3'' ''metric'' Map.empty (100 * hour) True,
      UpdateOne (100 * hour) True (sampleRecord ''r2'' (10 * hour)),
      RunJob ''job-1'' (101 * hour) True sampleClock allOk]"

section \<open>The bucket operations\<close>

lemma map_of_Put: "map_of (Put k v b) = (map_of b)(k \<mapsto> v)"
  by (induction b) (auto simp: fun_eq_iff)

lemma Get_Put: "Get k' (Put k v b) = (if k' = k then Some v else Get k' b)"
  by (simp add: Get_def map_of_Put)

lemma Get_Delete: "Get k' (Delete k b) = (if k' = k then None else Get k' b)"
  unfolding Get_def Delete_def
  by (induction b) auto

lemma fst_set_Put: "fst ` set (Put k v b) = insert k (fst ` set b)"
  by (induction b) auto

lemma bucket_ok_Cons: "bucket_ok (e # es) \<longleftrightarrow> (\<forall>x \<in> set es. fst e < fst x) \<and> bucket_ok es"
  by (auto simp: bucket_ok_def)

lemma set_Put_cases: "x \<in> set (Put k v b) \<Longrightarrow> x = (k, v) \<or> x \<in> set b"
  by (induction b) (auto split: if_splits)

lemma bucket_ok_Put: "bucket_ok b \<Longrightarrow> bucket_ok (Put k v b)"
proof (induction b)
  case Nil
  then show ?case by (simp add: bucket_ok_def)
next
  case (Cons e es)
  then show ?case
    by (auto simp: bucket_ok_Cons dest!: set_Put_cases)
qed

lemma bucket_ok_Delete: "bucket_ok b \<Longrightarrow> bucket_ok (Delete k b)"
  by (induction b) (auto simp: bucket_ok_Cons Delete_def)

lemma bucket_ok_filter: "bucket_ok b \<Longrightarrow> bucket_ok (filter P b)"
  by (induction b) (auto simp: bucket_ok_Cons)

lemma bucket_ok_distinct: "bucket_ok b \<Longrightarrow> distinct (map fst b)"
  by (induction b) (auto simp: bucket_ok_Cons)

lemma Put_present_keys: "bucket_ok b \<Longrightarrow> k \<in> fst ` set b \<Longrightarrow> map fst (Put k v b) = map fst b"
  by (induction b) (auto simp: bucket_ok_Cons)

lemma Get_in_bucket: "bucket_ok b \<Longrightarrow> e \<in> set b \<Longrightarrow> Get (fst e) b = Some (snd e)"
  using bucket_ok_distinct[of b] by (cases e) (simp add: Get_def)

lemma Get_None_iff: "Get k b = None \<longleftrightarrow> k \<notin> fst ` set b"
  by (simp add: Get_def map_of_eq_None_iff)

lemma Get_filter_keys:
  "Get k (filter (\<lambda>x. fst x \<notin> D) b) = (if k \<in> D then None else Get k b)"
  unfolding Get_def by (induction b) auto

lemma keys_match_Cons:
  "keys_match (e # es) \<longleftrightarrow>
     (case json_Unmarshal (snd e) of None \<Rightarrow> True | Some record \<Rightarrow> ID record = fst e) \<and> keys_match es"
  by (simp add: keys_match_def)

lemma keys_match_Put:
  "keys_match b \<Longrightarrow> ID r = k \<Longrightarrow> keys_match (Put k (Doc r) b)"
  by (induction b) (auto simp: keys_match_def)

lemma keys_match_filter: "keys_match b \<Longrightarrow> keys_match (filter P b)"
  by (induction b) (auto simp: keys_match_def)

section \<open>Steps of the batch processor\<close>

lemma updateRecord_eq:
  "updateRecord now ok record b =
     (if ok then Put (ID record) (Doc (record\<lparr>Processed := True, ProcessedAt := Some now\<rparr>)) b else b)"
  by (simp add: updateRecord_def Let_def json_Marshal_def)

lemma Get_updateRecord_other:
  "k \<noteq> ID record \<Longrightarrow> Get k (updateRecord now ok record b) = Get k b"
  by (simp add: updateRecord_eq Get_Put)

lemma Get_updateRecord_same:
  "Get (ID record) (updateRecord now True record b) =
     Some (Doc (record\<lparr>Processed := True, ProcessedAt := Some now\<rparr>))"
  by (simp add: updateRecord_eq Get_Put)

lemma Get_processRecords_other:
  "k \<notin> ID ` set rs \<Longrightarrow> Get k (processRecords nowAt putOk i rs b) = Get k b"
  by (induction rs arbitrary: i b) (auto simp: Get_updateRecord_other)

lemma Get_processRecords_chosen:
  "distinct (map ID rs) \<Longrightarrow> \<forall>i. putOk i \<Longrightarrow> j < length rs \<Longrightarrow>
   Get (ID (rs ! j)) (processRecords nowAt putOk i rs b) =
     Some (Doc ((rs ! j)\<lparr>Processed := True, ProcessedAt := Some (nowAt (i + j))\<rparr>))"
proof (induction rs arbitrary: i j b)
  case Nil
  then show ?case by simp
next
  case (Cons r rs)
  show ?case
  proof (cases j)
    case 0
    with Cons.prems show ?thesis
      by (simp add: Get_processRecords_other Get_updateRecord_same)
  next
    case (Suc j')
    with Cons.prems Cons.IH[of j' "Suc i"] show ?thesis by simp
  qed
qed

lemma keys_updateRecord:
  "bucket_ok b \<Longrightarrow> ID record \<in> fst ` set b \<Longrightarrow> map fst (updateRecord now ok record b) = map fst b"
  by (simp add: updateRecord_eq Put_present_keys)

lemma bucket_ok_updateRecord: "bucket_ok b \<Longrightarrow> bucket_ok (updateRecord now ok record b)"
  by (simp add: updateRecord_eq bucket_ok_Put)

lemma keys_processRecords:
  "bucket_ok b \<Longrightarrow> ID ` set rs \<subseteq> fst ` set b \<Longrightarrow>
   map fst (processRecords nowAt putOk i rs b) = map fst b"
proof (induction rs arbitrary: i b)
  case Nil
  then show ?case by simp
next
  case (Cons r rs)
  have k: "map fst (updateRecord (nowAt i) (putOk i) r b) = map fst b"
    using Cons.prems by (simp add: keys_updateRecord)
  then have "fst ` set (updateRecord (nowAt i) (putOk i) r b) = fst ` set b"
    by (metis list.set_map)
  with Cons.prems Cons.IH[of "updateRecord (nowAt i) (putOk i) r b" "Suc i"] k
  show ?case by (simp add: bucket_ok_updateRecord)
qed

lemma bucket_ok_processRecords:
  "bucket_ok b \<Longrightarrow> bucket_ok (processRecords nowAt putOk i rs b)"
  by (induction rs arbitrary: i b) (auto simp: bucket_ok_updateRecord)

lemma keys_match_updateRecord: "keys_match b \<Longrightarrow> keys_match (updateRecord now ok r b)"
  by (simp add: updateRecord_eq keys_match_Put)

lemma keys_match_processRecords:
  "keys_match b \<Longrightarrow> keys_match (processRecords nowAt putOk i rs b)"
  by (induction rs arbitrary: i b) (auto simp: keys_match_updateRecord)

lemma bucket_ok_processPendingRecords:
  "bucket_ok (records s) \<Longrightarrow>
   bucket_ok (records (processPendingRecords batchSize scanOk nowAt putOk s))"
  by (simp add: processPendingRecords_def Let_def bucket_ok_processRecords)

lemma keys_match_processPendingRecords:
  "keys_match (records s) \<Longrightarrow>
   keys_match (records (processPendingRecords batchSize scanOk nowAt putOk s))"
  by (simp add: processPendingRecords_def Let_def keys_match_processRecords)

section \<open>The sweep\<close>

lemma sweep_general:
  "sweep delOk cutoff es b n =
     (filter (\<lambda>x. fst x \<notin> fst ` {y \<in> set es. expired cutoff y \<and> delOk (fst y)}) b,
      n + int (length (filter (\<lambda>y. expired cutoff y \<and> delOk (fst y)) es)))"
proof (induction es arbitrary: b n)
  case Nil
  then show ?case by simp
next
  case (Cons e es)
  show ?case
  proof (cases "expired cutoff e \<and> delOk (fst e)")
    case True
    then obtain rcd where r: "json_Unmarshal (snd e) = Some rcd" "Timestamp rcd < cutoff"
      by (auto simp: expired_def split: option.splits)
    have set_eq: "fst ` {y \<in> set (e # es). expired cutoff y \<and> delOk (fst y)} =
                  insert (fst e) (fst ` {y \<in> set es. expired cutoff y \<and> delOk (fst y)})"
      using True by auto
    have "sweep delOk cutoff (e # es) b n = sweep delOk cutoff es (Delete (fst e) b) (n + 1)"
      using r True by simp
    also have "\<dots> = (filter (\<lambda>x. fst x \<notin> fst ` {y \<in> set es. expired cutoff y \<and> delOk (fst y)})
                        (Delete (fst e) b),
                      n + 1 + int (length (filter (\<lambda>y. expired cutoff y \<and> delOk (fst y)) es)))"
      by (rule Cons.IH)
    also have "\<dots> = (filter (\<lambda>x. fst x \<notin> fst ` {y \<in> set (e # es). expired cutoff y \<and> delOk (fst y)}) b,
                      n + int (length (filter (\<lambda>y. expired cutoff y \<and> delOk (fst y)) (e # es))))"
      unfolding set_eq using True by (simp add: Delete_def)
    finally show ?thesis .
  next
    case False
    then have set_eq: "{y \<in> set (e # es). expired cutoff y \<and> delOk (fst y)} =
                       {y \<in> set es. expired cutoff y \<and> delOk (fst y)}"
      by auto
    have "sweep delOk cutoff (e # es) b n = sweep delOk cutoff es b n"
      using False by (auto simp: expired_def split: option.splits)
    also have "\<dots> = (filter (\<lambda>x. fst x \<notin> fst ` {y \<in> set es. expired cutoff y \<and> delOk (fst y)}) b,
                      n + int (length (filter (\<lambda>y. expired cutoff y \<and> delOk (fst y)) es)))"
      by (rule Cons.IH)
    also have "\<dots> = (filter (\<lambda>x. fst x \<notin> fst ` {y \<in> set (e # es). expired cutoff y \<and> delOk (fst y)}) b,
                      n + int (length (filter (\<lambda>y. expired cutoff y \<and> delOk (fst y)) (e # es))))"
      unfolding set_eq using False by simp
    finally show ?thesis .
  qed
qed

lemma sweep_all_deleted:
  "\<forall>k. delOk k \<Longrightarrow>
   sweep delOk cutoff es b n =
     (filter (\<lambda>x. fst x \<notin> fst ` {y \<in> set es. expired cutoff y}) b,
      n + int (length (filter (expired cutoff) es)))"
  by (simp add: sweep_general)

lemma sweep_nothing_expired:
  "\<forall>e \<in> set es. \<not> expired cutoff e \<Longrightarrow> sweep delOk cutoff es b n = (b, n)"
  by (induction es arbitrary: b n) (auto simp: expired_def split: option.splits)

lemma expired_by_key:
  assumes "bucket_ok b" and "e \<in> set b"
  shows "fst e \<in> fst ` {y \<in> set b. expired cutoff y} \<longleftrightarrow> expired cutoff e"
proof
  assume "fst e \<in> fst ` {y \<in> set b. expired cutoff y}"
  then obtain y where y: "y \<in> set b" "expired cutoff y" "fst y = fst e" by auto
  have "Get (fst y) b = Some (snd y)"
    using assms(1) y(1) by (rule Get_in_bucket)
  moreover have "Get (fst e) b = Some (snd e)"
    using assms by (rule Get_in_bucket)
  ultimately have "snd y = snd e" using y(3) by simp
  with y show "expired cutoff e" by (simp add: expired_def)
next
  assume "expired cutoff e"
  with assms show "fst e \<in> fst ` {y \<in> set b. expired cutoff y}" by auto
qed

lemma sweep_whole_bucket:
  assumes "bucket_ok b" and "\<forall>k. delOk k"
  shows "sweep delOk cutoff b b 0 =
           (filter (\<lambda>e. \<not> expired cutoff e) b, int (length (filter (expired cutoff) b)))"
proof -
  have "filter (\<lambda>x. fst x \<notin> fst ` {y \<in> set b. expired cutoff y}) b =
        filter (\<lambda>e. \<not> expired cutoff e) b"
    using assms(1) by (intro filter_cong) (auto simp only: expired_by_key)
  then show ?thesis
    using assms(2) by (simp add: sweep_all_deleted)
qed

lemma records_cleanup:
  "records (snd (cleanupOldRecords parseTime formatTime now delOk commitOk cutoffStr s)) =
     (if commitOk
      then filter (\<lambda>x. fst x \<notin> fst ` {y \<in> set (records s).
                     expired (cutoffTime parseTime now cutoffStr) y \<and> delOk (fst y)}) (records s)
      else records s)"
  by (simp add: cleanupOldRecords_def Let_def sweep_general)

section \<open>Well-formed stores\<close>

text \<open>
  The bucket of every state that the operations reach from a well-formed one has ascending
  keys and holds each record under its own identifier.
\<close>

lemma records_processJob:
  "records (processJob jobID now scanOk nowAt putOk s) =
     (case jobs s jobID of
        None \<Rightarrow> records s
      | Some job \<Rightarrow> records (processPendingRecords 20 scanOk nowAt putOk s))"
  by (simp add: processJob_def processPendingRecords_def Let_def split: option.splits)

lemma wellformed_step:
  assumes "bucket_ok (records s)" and "keys_match (records s)"
  shows "bucket_ok (records (apply_op x s)) \<and> keys_match (records (apply_op x s))"
proof (cases x)
  case (CreateRecord uuid now putOk body)
  with assms show ?thesis
    by (auto simp: createRecordHandler_def Let_def json_Marshal_def bucket_ok_Put keys_match_Put
             split: sum.splits)
next
  case (GenerateRecord uuid recordType payload stamp putOk)
  with assms show ?thesis
    by (auto simp: generateRecord_def Let_def json_Marshal_def bucket_ok_Put keys_match_Put)
next
  case (ProcessBatch batchSize scanOk nowAt putOk)
  with assms show ?thesis
    by (simp add: bucket_ok_processPendingRecords keys_match_processPendingRecords)
next
  case (UpdateOne now putOk r)
  with assms show ?thesis
    by (simp add: bucket_ok_updateRecord keys_match_updateRecord)
next
  case (CreateJob uuid now)
  with assms show ?thesis
    by (simp add: createJobHandler_def Let_def)
next
  case (RunJob jobID now scanOk nowAt putOk)
  with assms show ?thesis
    by (simp add: records_processJob bucket_ok_processPendingRecords
          keys_match_processPendingRecords split: option.splits)
next
  case (Cleanup parseTime formatTime now delOk commitOk cutoffStr)
  with assms show ?thesis
    by (simp add: records_cleanup bucket_ok_filter keys_match_filter)
qed

lemma wellformed_run:
  "bucket_ok (records s) \<Longrightarrow> keys_match (records s) \<Longrightarrow>
   \<forall>t \<in> set (run ops s). bucket_ok (records t) \<and> keys_match (records t)"
proof (induction ops arbitrary: s)
  case Nil
  then show ?case by simp
next
  case (Cons x xs)
  from wellformed_step[OF Cons.prems, of x] Cons.IH[of "apply_op x s"] Cons.prems
  show ?case by simp
qed

section \<open>Selection of the batch\<close>

lemma pendingRecords_Nil: "pendingRecords [] = []"
  by (simp add: pendingRecords_def map_filter_simps)

lemma pendingRecords_Cons:
  "pendingRecords (e # es) =
     (case json_Unmarshal (snd e) of None \<Rightarrow> pendingRecords es
      | Some record \<Rightarrow> if Processed record then pendingRecords es else record # pendingRecords es)"
  by (simp add: pendingRecords_def map_filter_simps split: option.splits)

lemma selectPending_take:
  "selectPending batchSize b acc = acc @ take (nat batchSize - length acc) (pendingRecords b)"
proof (induction b arbitrary: acc)
  case Nil
  then show ?case by (simp add: pendingRecords_Nil)
next
  case (Cons e es)
  show ?case
  proof (cases "int (length acc) < batchSize")
    case True
    then have pos: "nat batchSize - length acc = Suc (nat batchSize - Suc (length acc))"
      by linarith
    show ?thesis
      using True Cons[of acc] Cons[of "acc @ [the (json_Unmarshal (snd e))]"]
      by (auto simp: pendingRecords_Cons pos split: option.splits)
  next
    case False
    then have "nat batchSize - length acc = 0" by linarith
    with False show ?thesis by simp
  qed
qed

text \<open>
  Once the batch is full the scan stops: the entries behind the place where it filled up
  have no part in the selection.
\<close>

lemma pendingRecords_append: "pendingRecords (xs @ ys) = pendingRecords xs @ pendingRecords ys"
  by (simp add: pendingRecords_def map_filter_def)

lemma selectPending_stops_when_full:
  assumes "nat batchSize \<le> length (pendingRecords xs)"
  shows "selectPending batchSize (xs @ ys) [] = selectPending batchSize xs []"
  using assms by (simp add: selectPending_take pendingRecords_append)

lemma pendingKeys_Cons:
  "pendingKeys (e # es) = (if pending (snd e) then fst e # pendingKeys es else pendingKeys es)"
  by (simp add: pendingKeys_def)

lemma ID_pendingRecords: "keys_match b \<Longrightarrow> map ID (pendingRecords b) = pendingKeys b"
  by (induction b)
     (auto simp: pendingRecords_Cons pendingRecords_Nil pendingKeys_Cons keys_match_Cons pending_def
                 pendingKeys_def split: option.splits)

lemma pendingKeys_subset: "set (pendingKeys b) \<subseteq> fst ` set b"
  by (auto simp: pendingKeys_def)

lemma pendingRecords_in_bucket:
  "keys_match b \<Longrightarrow> r \<in> set (pendingRecords b) \<Longrightarrow> (ID r, Doc r) \<in> set b \<and> \<not> Processed r"
proof (induction b)
  case Nil
  then show ?case by (simp add: pendingRecords_Nil)
next
  case (Cons e es)
  then show ?case
    by (cases e; cases "snd e") (auto simp: pendingRecords_Cons keys_match_Cons split: if_splits)
qed

lemma distinct_pendingKeys: "bucket_ok b \<Longrightarrow> distinct (pendingKeys b)"
  unfolding pendingKeys_def using bucket_ok_distinct[of b] by (simp add: distinct_map_filter)

lemma sorted_pendingKeys: "bucket_ok b \<Longrightarrow> sorted_wrt (<) (pendingKeys b)"
  unfolding pendingKeys_def bucket_ok_def
  by (induction b) auto

lemma pendingKeys_by_Get:
  "bucket_ok b \<Longrightarrow>
   pendingKeys b = filter (\<lambda>k. case Get k b of None \<Rightarrow> False | Some v \<Rightarrow> pending v) (map fst b)"
proof -
  assume ok: "bucket_ok b"
  have "\<forall>e \<in> set b. Get (fst e) b = Some (snd e)"
    using ok by (simp add: Get_in_bucket)
  then have "filter (\<lambda>e. pending (snd e)) b =
             filter (\<lambda>e. case Get (fst e) b of None \<Rightarrow> False | Some v \<Rightarrow> pending v) b"
    by (intro filter_cong) auto
  then show ?thesis
    by (simp add: pendingKeys_def filter_map comp_def)
qed

lemma filter_not_in_take: "distinct xs \<Longrightarrow> filter (\<lambda>x. x \<notin> set (take n xs)) xs = drop n xs"
proof (induction xs arbitrary: n)
  case Nil
  then show ?case by simp
next
  case (Cons x xs)
  show ?case
  proof (cases n)
    case 0
    then show ?thesis by simp
  next
    case (Suc m)
    have "filter (\<lambda>y. y \<noteq> x \<and> y \<notin> set (take m xs)) xs = filter (\<lambda>y. y \<notin> set (take m xs)) xs"
      using Cons.prems by (intro filter_cong) auto
    with Cons Suc show ?thesis by simp
  qed
qed

lemma records_processPendingRecords:
  "scanOk \<Longrightarrow>
   records (processPendingRecords batchSize scanOk nowAt putOk s) =
     processRecords nowAt putOk 0 (take (nat batchSize) (pendingRecords (records s))) (records s)"
  by (simp add: processPendingRecords_def selectPending_take Let_def)

lemma jobs_processPendingRecords:
  "jobs (processPendingRecords batchSize scanOk nowAt putOk s) = jobs s"
  by (simp add: processPendingRecords_def Let_def)

text \<open>
  C2. In a bucket whose keys ascend and whose records are stored under their own identifiers,
  with a positive batch size, a scan that succeeds and updates that all succeed, one
  invocation of the batch processor works on \<open>chosen\<close>, the first \<open>batchSize\<close> keys of the
  pending records in ascending key order (all of them when there are fewer): there are exactly
  \<open>min batchSize (number of pending records)\<close> of them; each of them held a pending record
  and holds that record afterwards with \<open>Processed = true\<close> and \<open>ProcessedAt\<close> set; every
  other key holds what it held before; no key is added or removed; and the records still
  pending afterwards are those after the first \<open>batchSize\<close> in key order, so that nothing
  behind a full batch is touched.
\<close>

theorem processPendingRecords_bounded_batch:
  assumes ok: "bucket_ok (records s)" and km: "keys_match (records s)"
    and pos: "0 < batchSize" and scan: "scanOk" and puts: "\<forall>i. putOk i"
  shows "let s' = processPendingRecords batchSize scanOk nowAt putOk s;
             chosen = take (nat batchSize) (pendingKeys (records s))
         in sorted_wrt (<) (pendingKeys (records s))
          \<and> length chosen = min (nat batchSize) (length (pendingKeys (records s)))
          \<and> (\<forall>j < length chosen. \<exists>r.
                Get (chosen ! j) (records s) = Some (Doc r) \<and> \<not> Processed r \<and>
                Get (chosen ! j) (records s') =
                  Some (Doc (r\<lparr>Processed := True, ProcessedAt := Some (nowAt j)\<rparr>)))
          \<and> (\<forall>k. k \<notin> set chosen \<longrightarrow> Get k (records s') = Get k (records s))
          \<and> map fst (records s') = map fst (records s)
          \<and> pendingKeys (records s') = drop (nat batchSize) (pendingKeys (records s))
          \<and> jobs s' = jobs s"
proof -
  define b where "b = records s"
  define n where "n = nat batchSize"
  define sel where "sel = take n (pendingRecords b)"
  define chosen where "chosen = take n (pendingKeys b)"
  define b' where "b' = processRecords nowAt putOk 0 sel b"
  define s' where "s' = processPendingRecords batchSize scanOk nowAt putOk s"
  have rec': "records s' = b'"
    using scan by (simp add: s'_def b'_def sel_def b_def n_def records_processPendingRecords)
  have ids: "map ID sel = chosen"
    using km by (simp add: sel_def chosen_def b_def take_map[symmetric] ID_pendingRecords)
  have dist: "distinct chosen"
    using ok by (simp add: chosen_def b_def distinct_pendingKeys)
  have sub: "set chosen \<subseteq> fst ` set b"
    using pendingKeys_subset[of b] set_take_subset[of n "pendingKeys b"]
    by (auto simp: chosen_def)
  have len: "length sel = length chosen"
    using ids by (metis length_map)
  have c1: "sorted_wrt (<) (pendingKeys b)"
    using ok by (simp add: b_def sorted_pendingKeys)
  have c2: "length chosen = min n (length (pendingKeys b))"
    by (simp add: chosen_def)
  have c3: "\<exists>r. Get (chosen ! j) b = Some (Doc r) \<and> \<not> Processed r \<and>
              Get (chosen ! j) b' = Some (Doc (r\<lparr>Processed := True, ProcessedAt := Some (nowAt j)\<rparr>))"
    if j: "j < length chosen" for j
  proof -
    have jl: "j < length sel" using j len by simp
    then have "sel ! j \<in> set (pendingRecords b)"
      using in_set_takeD[of "sel ! j" n "pendingRecords b"] by (simp add: sel_def)
    then have mem: "(ID (sel ! j), Doc (sel ! j)) \<in> set b" and np: "\<not> Processed (sel ! j)"
      using km pendingRecords_in_bucket[of b "sel ! j"] by (simp_all add: b_def)
    have cj: "chosen ! j = ID (sel ! j)"
      using ids jl by (metis nth_map)
    have g: "Get (chosen ! j) b = Some (Doc (sel ! j))"
      using Get_in_bucket[OF _ mem] ok by (simp add: cj b_def)
    have "Get (ID (sel ! j)) b' =
            Some (Doc ((sel ! j)\<lparr>Processed := True, ProcessedAt := Some (nowAt (0 + j))\<rparr>))"
      unfolding b'_def using dist ids puts jl
      by (intro Get_processRecords_chosen) simp_all
    with g np cj show ?thesis by simp
  qed
  have c4: "Get k b' = Get k b" if "k \<notin> set chosen" for k
  proof -
    have "k \<notin> ID ` set sel" using that ids by (metis list.set_map)
    then show ?thesis by (simp add: b'_def Get_processRecords_other)
  qed
  have c5: "map fst b' = map fst b"
  proof -
    have "ID ` set sel \<subseteq> fst ` set b" using sub ids by (metis list.set_map)
    then show ?thesis using ok by (simp add: b'_def b_def keys_processRecords)
  qed
  have ok': "bucket_ok b'"
    using ok by (simp add: b'_def b_def bucket_ok_processRecords)
  have pend': "(case Get k b' of None \<Rightarrow> False | Some v \<Rightarrow> pending v) =
               ((case Get k b of None \<Rightarrow> False | Some v \<Rightarrow> pending v) \<and> k \<notin> set chosen)" for k
  proof (cases "k \<in> set chosen")
    case True
    then obtain j where "j < length chosen" "chosen ! j = k"
      by (auto simp: in_set_conv_nth)
    with c3[of j] show ?thesis using True by (auto simp: pending_def)
  next
    case False
    then show ?thesis by (simp add: c4)
  qed
  have c6: "pendingKeys b' = drop n (pendingKeys b)"
  proof -
    have "pendingKeys b' =
            filter (\<lambda>k. case Get k b' of None \<Rightarrow> False | Some v \<Rightarrow> pending v) (map fst b)"
      using pendingKeys_by_Get[OF ok'] c5 by simp
    also have "\<dots> = filter (\<lambda>k. k \<notin> set chosen)
                      (filter (\<lambda>k. case Get k b of None \<Rightarrow> False | Some v \<Rightarrow> pending v) (map fst b))"
      by (simp add: pend' conj_commute)
    also have "\<dots> = filter (\<lambda>k. k \<notin> set (take n (pendingKeys b))) (pendingKeys b)"
      using pendingKeys_by_Get[of b] ok by (simp add: b_def chosen_def)
    also have "\<dots> = drop n (pendingKeys b)"
      using ok by (simp add: filter_not_in_take distinct_pendingKeys b_def)
    finally show ?thesis .
  qed
  have c7: "jobs s' = jobs s"
    by (simp add: s'_def jobs_processPendingRecords)
  from c1 c2 c3 c4 c5 c6 c7 rec' show ?thesis
    unfolding Let_def s'_def[symmetric] b_def[symmetric] n_def[symmetric] chosen_def[symmetric]
    by simp
qed

text \<open>
  The scenario of 15 pending records and batch size 10: 5 stay pending after the first
  invocation and none after the second.
\<close>

theorem processPendingRecords_bounded_batch_witness:
  "bucket_ok (records fifteenPending) \<and> keys_match (records fifteenPending) \<and> (0::int) < 10
   \<and> length (pendingKeys (records fifteenPending)) = 15
   \<and> pendingKeys (records (processPendingRecords 10 True (\<lambda>i. 2000 + int i) (\<lambda>i. True)
        fifteenPending)) = [''r11'', ''r12'', ''r13'', ''r14'', ''r15'']
   \<and> pendingKeys (records (processPendingRecords 10 True (\<lambda>i. 3000 + int i) (\<lambda>i. True)
        (processPendingRecords 10 True (\<lambda>i. 2000 + int i) (\<lambda>i. True) fifteenPending))) = []"
proof -
  let ?s1 = "processPendingRecords 10 True (\<lambda>i. 2000 + int i) (\<lambda>i. True) fifteenPending"
  have h1: "bucket_ok (records fifteenPending)"
    by (simp add: fifteenPending_def bucket_ok_def)
  have h2: "keys_match (records fifteenPending)"
    by (simp add: fifteenPending_def keys_match_def sampleRecord_def doneRecord_def)
  have h3: "(0::int) < 10" by simp
  have h4: "\<forall>i::nat. True" by simp
  have pk: "pendingKeys (records fifteenPending) =
              [''r01'', ''r02'', ''r03'', ''r04'', ''r05'', ''r06'', ''r07'', ''r08'', ''r09'', ''r10'',
               ''r11'', ''r12'', ''r13'', ''r14'', ''r15'']"
    by (simp add: fifteenPending_def pendingKeys_def pending_def sampleRecord_def doneRecord_def)
  have first: "pendingKeys (records ?s1) = drop (nat 10) (pendingKeys (records fifteenPending))"
    using processPendingRecords_bounded_batch[OF h1 h2 h3 TrueI h4, of "\<lambda>i. 2000 + int i"]
    by (simp add: Let_def)
  have ok1: "bucket_ok (records ?s1)"
    by (rule bucket_ok_processPendingRecords[OF h1])
  have km1: "keys_match (records ?s1)"
    by (rule keys_match_processPendingRecords[OF h2])
  have second: "pendingKeys (records (processPendingRecords 10 True (\<lambda>i. 3000 + int i) (\<lambda>i. True) ?s1)) =
                  drop (nat 10) (pendingKeys (records ?s1))"
    using processPendingRecords_bounded_batch[OF ok1 km1 h3 TrueI h4, of "\<lambda>i. 3000 + int i"]
    by (simp add: Let_def)
  show ?thesis
    using h1 h2 first second by (simp add: pk)
qed

lemma selectPending_no_pending:
  "\<forall>e \<in> set b. \<not> pending (snd e) \<Longrightarrow> selectPending batchSize b acc = acc"
  by (induction b arbitrary: acc) (auto simp: pending_def split: option.splits)

text \<open>
  C7. When no stored record has \<open>processed = false\<close>, an invocation of the batch processor
  leaves the whole state (every stored entry, and the job registry) as it was, whatever the
  batch size and the outcomes of the storage transactions. The Go function has no result, so
  there is no error it could return.
\<close>

theorem processPendingRecords_nothing_pending:
  assumes "\<forall>e \<in> set (records s). \<not> pending (snd e)"
  shows "processPendingRecords batchSize scanOk nowAt putOk s = s"
  using assms by (simp add: processPendingRecords_def selectPending_no_pending)

theorem processPendingRecords_nothing_pending_witness:
  "pendingKeys (records settledState) = []
   \<and> map fst (records settledState) = [''b'', ''d'']
   \<and> processPendingRecords 10 True sampleClock allOk settledState = settledState"
proof -
  have h: "\<forall>e \<in> set (records settledState). \<not> pending (snd e)"
    by (simp add: settledState_def doneRecord_def pending_def)
  have "pendingKeys (records settledState) = []"
    by (simp add: settledState_def doneRecord_def pendingKeys_def pending_def)
  moreover have "map fst (records settledState) = [''b'', ''d'']"
    by (simp add: settledState_def doneRecord_def)
  ultimately show ?thesis
    using processPendingRecords_nothing_pending[OF h] by simp
qed

section \<open>Properties of the retention sweep\<close>

text \<open>
  C5. When every delete and the commit of the transaction succeed, the cleanup removes from a
  bucket with ascending keys exactly the entries that are records with a timestamp strictly
  before the cutoff, keeps every other entry (a record at or after the cutoff, a value that
  does not unmarshal), and replies with the number of removed records and with the rendering
  of the cutoff that it used. That cutoff is 24 hours before the current time when the
  parameter is empty (absent) or not accepted by the parser, and the parsed time otherwise.
\<close>

theorem cleanupOldRecords_deletes_expired:
  assumes "bucket_ok (records s)" and "\<forall>k. delOk k" and "commitOk"
  shows "let cutoff = cutoffTime parseTime now cutoffStr
         in cleanupOldRecords parseTime formatTime now delOk commitOk cutoffStr s =
              (Reply 200 \<lparr>deleted_count = int (length (filter (expired cutoff) (records s))),
                          cutoff_time = formatTime cutoff\<rparr>,
               s\<lparr>records := filter (\<lambda>e. \<not> expired cutoff e) (records s)\<rparr>)
          \<and> (cutoffStr = [] \<or> parseTime cutoffStr = None \<longrightarrow>
               cutoff = now - 24 * 3600000000000)
          \<and> (\<forall>parsed. cutoffStr \<noteq> [] \<and> parseTime cutoffStr = Some parsed \<longrightarrow>
               cutoff = parsed)"
  using assms
  by (auto simp: cleanupOldRecords_def cutoffTime_def Let_def sweep_whole_bucket)

text \<open>
  With the current time at hour 100 and no parameter, the cutoff is hour 76: the record of
  hour 52 (48 hours old) is deleted; the record stamped at the cutoff, the record of hour 99
  and the value that does not unmarshal stay. A parameter that the parser rejects gives the
  same cutoff, and one that it accepts gives the parsed time.
\<close>

theorem cleanupOldRecords_deletes_expired_witness:
  "bucket_ok (records mixedState) \<and> (\<forall>k::string. allOk k)
   \<and> cutoffTime sampleParse (100 * hour) [] = 100 * hour - 24 * 3600000000000
   \<and> cutoffTime sampleParse (100 * hour) ''yesterday'' = 100 * hour - 24 * 3600000000000
   \<and> cutoffTime sampleParse (500 * hour) ''1970-01-04T04:00:00Z'' = 76 * hour
   \<and> cleanupOldRecords sampleParse sampleFormat (100 * hour) allOk True [] mixedState =
       (Reply 200 \<lparr>deleted_count = 1, cutoff_time = ''1970-01-04T04:00:00Z''\<rparr>,
        mixedState\<lparr>records := tl (records mixedState)\<rparr>)"
proof -
  have h1: "bucket_ok (records mixedState)"
    by (simp add: mixedState_def doneRecord_def bucket_ok_def)
  have h2: "\<forall>k::string. allOk k"
    by (simp add: allOk_def)
  have c: "cutoffTime sampleParse (100 * hour) [] = 76 * hour"
    by (simp add: cutoffTime_def hour_def)
  from cleanupOldRecords_deletes_expired[OF h1 h2 TrueI, of sampleParse "100 * hour" "[]" sampleFormat]
  have r: "cleanupOldRecords sampleParse sampleFormat (100 * hour) allOk True [] mixedState =
       (Reply 200 \<lparr>deleted_count = int (length (filter (expired (76 * hour)) (records mixedState))),
                   cutoff_time = sampleFormat (76 * hour)\<rparr>,
        mixedState\<lparr>records := filter (\<lambda>e. \<not> expired (76 * hour) e) (records mixedState)\<rparr>)"
    by (simp add: Let_def c)
  from cleanupOldRecords_deletes_expired[OF h1 h2 TrueI, of sampleParse "100 * hour" "''yesterday''"]
  have u: "cutoffTime sampleParse (100 * hour) ''yesterday'' = 100 * hour - 24 * 3600000000000"
    by (simp add: Let_def sampleParse_def)
  from cleanupOldRecords_deletes_expired[OF h1 h2 TrueI, of sampleParse "500 * hour"
        "''1970-01-04T04:00:00Z''"]
  have p: "cutoffTime sampleParse (500 * hour) ''1970-01-04T04:00:00Z'' = 76 * hour"
    by (simp add: Let_def sampleParse_def)
  from r show ?thesis
    using h1 h2 c u p
    by (simp add: mixedState_def doneRecord_def expired_def sampleRecord_def sampleFormat_def hour_def)
qed

text \<open>
  C6. After a cleanup whose deletes and commit succeeded, a second cleanup that works with the
  same cutoff leaves the state as the first one left it and, when it answers at all (its own
  commit may fail, with status 500), reports zero deleted records. This holds for every
  state, and whatever the storage outcomes of the second run are.
\<close>

theorem cleanupOldRecords_idempotent:
  assumes "\<forall>k. delOk k" and "commitOk"
    and same: "cutoffTime parseB nowB cutoffStrB = cutoffTime parseTime now cutoffStr"
  shows "let s1 = snd (cleanupOldRecords parseTime formatTime now delOk commitOk cutoffStr s)
         in cleanupOldRecords parseB formatB nowB delOkB commitOkB cutoffStrB s1 =
              (if commitOkB
               then Reply 200 \<lparr>deleted_count = 0,
                               cutoff_time = formatB (cutoffTime parseTime now cutoffStr)\<rparr>
               else Failure 500,
               s1)"
proof -
  define cutoff where "cutoff = cutoffTime parseTime now cutoffStr"
  define b1 where "b1 = filter (\<lambda>x. fst x \<notin> fst ` {y \<in> set (records s). expired cutoff y}) (records s)"
  have first: "snd (cleanupOldRecords parseTime formatTime now delOk commitOk cutoffStr s) =
                 s\<lparr>records := b1\<rparr>"
    using assms(1,2)
    by (simp add: cleanupOldRecords_def Let_def sweep_all_deleted b1_def cutoff_def)
  have "\<forall>e \<in> set b1. \<not> expired cutoff e"
    unfolding b1_def by force
  then have "sweep delOkB cutoff b1 b1 0 = (b1, 0)"
    by (rule sweep_nothing_expired)
  then have second:
    "cleanupOldRecords parseB formatB nowB delOkB commitOkB cutoffStrB (s\<lparr>records := b1\<rparr>) =
       (if commitOkB
        then Reply 200 \<lparr>deleted_count = 0, cutoff_time = formatB cutoff\<rparr>
        else Failure 500,
        s\<lparr>records := b1\<rparr>)"
    using same by (simp add: cleanupOldRecords_def Let_def cutoff_def[symmetric])
  show ?thesis
    unfolding Let_def first cutoff_def[symmetric] by (rule second)
qed

text \<open>
  A first cleanup at hour 100 without a parameter, then a second one at hour 500 with the
  same cutoff given as a parameter.
\<close>

theorem cleanupOldRecords_idempotent_witness:
  "(\<forall>k::string. allOk k)
   \<and> cutoffTime sampleParse (500 * hour) ''1970-01-04T04:00:00Z'' =
       cutoffTime sampleParse (100 * hour) []
   \<and> snd (cleanupOldRecords sampleParse sampleFormat (100 * hour) allOk True [] mixedState) =
       mixedState\<lparr>records := tl (records mixedState)\<rparr>
   \<and> cleanupOldRecords sampleParse sampleFormat (500 * hour) allOk True ''1970-01-04T04:00:00Z''
        (mixedState\<lparr>records := tl (records mixedState)\<rparr>) =
       (Reply 200 \<lparr>deleted_count = 0, cutoff_time = ''1970-01-04T04:00:00Z''\<rparr>,
        mixedState\<lparr>records := tl (records mixedState)\<rparr>)"
proof -
  have h1: "\<forall>k::string. allOk k"
    by (simp add: allOk_def)
  have first: "snd (cleanupOldRecords sampleParse sampleFormat (100 * hour) allOk True [] mixedState) =
       mixedState\<lparr>records := tl (records mixedState)\<rparr>"
    by (simp add: cleanupOldRecords_def Let_def cutoffTime_def sampleParse_def hour_def
          mixedState_def doneRecord_def sampleRecord_def allOk_def Delete_def)
  have c: "cutoffTime sampleParse (100 * hour) [] = 76 * hour"
    by (simp add: cutoffTime_def hour_def)
  have same: "cutoffTime sampleParse (500 * hour) ''1970-01-04T04:00:00Z'' =
              cutoffTime sampleParse (100 * hour) []"
    by (simp add: cutoffTime_def sampleParse_def hour_def)
  from cleanupOldRecords_idempotent[where delOk = allOk and commitOk = True
        and parseTime = sampleParse and now = "100 * hour" and cutoffStr = "[]"
        and formatTime = sampleFormat and s = mixedState
        and parseB = sampleParse and nowB = "500 * hour" and cutoffStrB = "''1970-01-04T04:00:00Z''"
        and formatB = sampleFormat and delOkB = allOk and commitOkB = True,
        OF h1 TrueI same]
  have "cleanupOldRecords sampleParse sampleFormat (500 * hour) allOk True ''1970-01-04T04:00:00Z''
        (mixedState\<lparr>records := tl (records mixedState)\<rparr>) =
       (Reply 200 \<lparr>deleted_count = 0, cutoff_time = sampleFormat (76 * hour)\<rparr>,
        mixedState\<lparr>records := tl (records mixedState)\<rparr>)"
    by (simp add: Let_def first c)
  with h1 first same show ?thesis
    by (simp add: sampleFormat_def)
qed

section \<open>Properties of the record handlers\<close>

text \<open>
  C8. For every request body that decodes, when the update transaction succeeds, the create
  operation answers 201 with a record that carries the generated identifier, and the get
  operation, asked for that identifier in the state that the create operation left, answers
  200 with the very same record: all six fields agree.
\<close>

theorem create_then_get_roundtrip:
  assumes "putOk"
  shows "\<exists>created s'.
           createRecordHandler uuid now putOk (Inr decoded) s = (Reply 201 created, s')
         \<and> ID created = uuid
         \<and> getRecordHandler (ID created) s' = Reply 200 created"
  using assms
  by (simp add: createRecordHandler_def getRecordHandler_def Let_def Get_Put json_Marshal_def)

theorem create_then_get_roundtrip_witness:
  "createRecordHandler ''id-1'' 100 True (Inr clientBody) emptyState =
     (Reply 201 createdRecord,
      createdState)
   \<and> getRecordHandler ''id-1''
        (createdState) =
      Reply 200 createdRecord"
proof -
  have h: "createRecordHandler ''id-1'' 100 True (Inr clientBody) emptyState =
     (Reply 201 createdRecord,
      createdState)"
    by (simp add: createRecordHandler_def emptyState_def createdRecord_def createdState_def json_Marshal_def Let_def)
  from create_then_get_roundtrip[OF TrueI, of "''id-1''" 100 clientBody emptyState]
  obtain created s' where
    c: "createRecordHandler ''id-1'' 100 True (Inr clientBody) emptyState = (Reply 201 created, s')"
    and i: "ID created = ''id-1''"
    and g: "getRecordHandler (ID created) s' = Reply 200 created"
    by blast
  from c h have
    "(Reply 201 created, s') =
       (Reply 201 createdRecord,
        createdState)"
    by (rule trans[OF sym])
  then have "created = createdRecord"
    and "s' = createdState"
    by blast+
  with g i h show ?thesis by simp
qed

text \<open>
  C9. Whenever the create operation answers with a record, the request body had decoded, and
  the record is the decoded body with \<open>ID\<close> replaced by the generated identifier,
  \<open>Timestamp\<close> by the current time and \<open>Processed\<close> by false, whatever the client put in
  these fields; \<open>Type\<close> and \<open>Data\<close> are the client's. The record is stored under the
  generated identifier, and no other key of the bucket changes.
\<close>

theorem createRecordHandler_server_fields:
  assumes "createRecordHandler uuid now putOk body s = (Reply code created, s')"
  shows "\<exists>decoded. body = Inr decoded
           \<and> created = decoded\<lparr>ID := uuid, Timestamp := now, Processed := False\<rparr>
           \<and> ID created = uuid \<and> Timestamp created = now \<and> \<not> Processed created
           \<and> Type created = Type decoded \<and> Data created = Data decoded
           \<and> code = 201
           \<and> Get uuid (records s') = Some (json_Marshal created)
           \<and> (\<forall>k. k \<noteq> uuid \<longrightarrow> Get k (records s') = Get k (records s))
           \<and> jobs s' = jobs s"
  using assms
  by (auto simp: createRecordHandler_def Let_def Get_Put split: sum.splits if_splits)

theorem createRecordHandler_server_fields_witness:
  "createRecordHandler ''id-1'' 100 True (Inr clientBody) emptyState =
     (Reply 201 createdRecord,
      createdState)
   \<and> ID clientBody = ''chosen-by-client'' \<and> Timestamp clientBody = 7 \<and> Processed clientBody
   \<and> ID createdRecord = ''id-1''
   \<and> Get ''id-1'' (records (createdState))
       = Some (json_Marshal createdRecord)"
proof -
  have h: "createRecordHandler ''id-1'' 100 True (Inr clientBody) emptyState =
     (Reply 201 createdRecord,
      createdState)"
    by (simp add: createRecordHandler_def emptyState_def createdRecord_def createdState_def json_Marshal_def Let_def)
  from createRecordHandler_server_fields[OF h] h show ?thesis
    by (simp add: clientBody_def)
qed

text \<open>
  C3. The create operation does not reset \<open>ProcessedAt\<close>: for a request body that carries a
  \<open>processed_at\<close>, the record that is returned, stored, and read back by the get operation
  has \<open>Processed = false\<close> together with a \<open>ProcessedAt\<close>.
\<close>

theorem createRecordHandler_keeps_processedAt:
  "fst (createRecordHandler ''id-1'' 100 True (Inr clientBody) emptyState) =
     Reply 201 createdRecord
   \<and> getRecordHandler ''id-1'' (snd (createRecordHandler ''id-1'' 100 True (Inr clientBody) emptyState)) =
     Reply 200 createdRecord
   \<and> Processed createdRecord = False
   \<and> ProcessedAt createdRecord = Some 5"
  by (simp add: createRecordHandler_def getRecordHandler_def emptyState_def createdRecord_def createdState_def json_Marshal_def Let_def
        Get_def clientBody_def)

text \<open>
  Apart from that, every operation keeps \<open>ProcessedAt\<close> in step with \<open>Processed\<close>.
\<close>

lemma stamps_match_Put:
  "stamps_match b \<Longrightarrow> (ProcessedAt r \<noteq> None) = Processed r \<Longrightarrow> stamps_match (Put k (Doc r) b)"
  by (induction b) (auto simp: stamps_match_def)

lemma stamps_match_filter: "stamps_match b \<Longrightarrow> stamps_match (filter P b)"
  by (induction b) (auto simp: stamps_match_def)

lemma stamps_match_updateRecord: "stamps_match b \<Longrightarrow> stamps_match (updateRecord now ok r b)"
  by (simp add: updateRecord_eq stamps_match_Put)

lemma stamps_match_processRecords:
  "stamps_match b \<Longrightarrow> stamps_match (processRecords nowAt putOk i rs b)"
  by (induction rs arbitrary: i b) (auto simp: stamps_match_updateRecord)

lemma stamps_match_processPendingRecords:
  "stamps_match (records s) \<Longrightarrow>
   stamps_match (records (processPendingRecords batchSize scanOk nowAt putOk s))"
  by (simp add: processPendingRecords_def Let_def stamps_match_processRecords)

lemma stamps_match_step:
  assumes "stamps_match (records s)" and "plain_body x"
  shows "stamps_match (records (apply_op x s))"
proof (cases x)
  case (CreateRecord uuid now putOk body)
  with assms show ?thesis
    by (cases body) (auto simp: createRecordHandler_def Let_def json_Marshal_def stamps_match_Put)
next
  case (GenerateRecord uuid recordType payload stamp putOk)
  with assms show ?thesis
    by (auto simp: generateRecord_def Let_def json_Marshal_def stamps_match_Put)
next
  case (ProcessBatch batchSize scanOk nowAt putOk)
  with assms show ?thesis
    by (simp add: stamps_match_processPendingRecords)
next
  case (UpdateOne now putOk r)
  with assms show ?thesis
    by (simp add: stamps_match_updateRecord)
next
  case (CreateJob uuid now)
  with assms show ?thesis
    by (simp add: createJobHandler_def Let_def)
next
  case (RunJob jobID now scanOk nowAt putOk)
  with assms show ?thesis
    by (simp add: records_processJob stamps_match_processPendingRecords split: option.splits)
next
  case (Cleanup parseTime formatTime now delOk commitOk cutoffStr)
  with assms show ?thesis
    by (simp add: records_cleanup stamps_match_filter)
qed

lemma stamps_match_run:
  "stamps_match (records s) \<Longrightarrow> list_all plain_body ops \<Longrightarrow>
   \<forall>t \<in> set (run ops s). stamps_match (records t)"
proof (induction ops arbitrary: s)
  case Nil
  then show ?case by simp
next
  case (Cons x xs)
  from Cons.prems have "stamps_match (records (apply_op x s))"
    by (simp add: stamps_match_step)
  with Cons.IH[of "apply_op x s"] Cons.prems show ?case by simp
qed

section \<open>The count reported by a job\<close>

text \<open>
  C1. A job created and run on an empty store, where no record is pending and none gets
  processed, ends with status completed and \<open>Records = 20\<close>: \<open>processJob\<close> stores the
  constant of line 693, not the number of records that its run processed.
\<close>

theorem processJob_reports_twenty:
  "getJobHandler ''job-1''
     (processJob ''job-1'' 50 True sampleClock allOk (snd (createJobHandler ''job-1'' 10 emptyState))) =
     Reply 200 \<lparr>JobID = ''job-1'', Status = ''completed'', StartTime = 10, EndTime = Some 50,
                Records = 20, Error = []\<rparr>
   \<and> records (processJob ''job-1'' 50 True sampleClock allOk
        (snd (createJobHandler ''job-1'' 10 emptyState))) = []
   \<and> pendingKeys (records emptyState) = []"
  by (simp add: getJobHandler_def processJob_def createJobHandler_def emptyState_def createdRecord_def createdState_def
        processPendingRecords_def Let_def pendingKeys_def)

section \<open>Values that do not unmarshal\<close>












section \<open>Processed records stay processed\<close>

lemma isProcessed_eq: "isProcessed k s = processedIn k (records s)"
  by (simp add: isProcessed_def)

lemma processedIn_key: "processedIn k b \<Longrightarrow> k \<in> fst ` set b"
  using Get_None_iff[of k b] by (auto simp: processedIn_def split: option.splits)

lemma processedIn_Put_other: "k \<noteq> k' \<Longrightarrow> processedIn k (Put k' v b) = processedIn k b"
  by (simp add: processedIn_def Get_Put)

lemma processedIn_updateRecord:
  "processedIn k b \<Longrightarrow> processedIn k (updateRecord now ok r b)"
  by (cases "k = ID r") (auto simp: updateRecord_eq processedIn_def Get_Put)

lemma processedIn_processRecords:
  "processedIn k b \<Longrightarrow> processedIn k (processRecords nowAt putOk i rs b)"
  by (induction rs arbitrary: i b) (auto simp: processedIn_updateRecord)

lemma processedIn_processPendingRecords:
  "processedIn k (records s) \<Longrightarrow>
   processedIn k (records (processPendingRecords batchSize scanOk nowAt putOk s))"
  by (simp add: processPendingRecords_def Let_def processedIn_processRecords)

lemma processedIn_sweep:
  assumes "processedIn k b" and "k \<in> fst ` set (fst (sweep delOk cutoff es b n))"
  shows "processedIn k (fst (sweep delOk cutoff es b n))"
proof -
  let ?D = "fst ` {y \<in> set es. expired cutoff y \<and> delOk (fst y)}"
  have eq: "fst (sweep delOk cutoff es b n) = filter (\<lambda>x. fst x \<notin> ?D) b"
    by (simp add: sweep_general)
  have "k \<notin> ?D"
    using assms(2) unfolding eq by auto
  then have "Get k (filter (\<lambda>x. fst x \<notin> ?D) b) = Get k b"
    by (simp only: Get_filter_keys if_False)
  with assms(1) show ?thesis
    unfolding eq by (simp add: processedIn_def)
qed

lemma isProcessed_step:
  assumes fresh: "fresh_ids x s" and p: "isProcessed k s"
    and present: "k \<in> fst ` set (records (apply_op x s))"
  shows "isProcessed k (apply_op x s)"
proof (cases x)
  case (CreateRecord uuid now putOk body)
  have "k \<noteq> uuid"
    using fresh p processedIn_key[of k "records s"] CreateRecord by (auto simp: isProcessed_eq)
  then show ?thesis
    using p CreateRecord
    by (auto simp: isProcessed_eq createRecordHandler_def Let_def processedIn_Put_other
             split: sum.splits)
next
  case (GenerateRecord uuid recordType payload stamp putOk)
  have "k \<noteq> uuid"
    using fresh p processedIn_key[of k "records s"] GenerateRecord by (auto simp: isProcessed_eq)
  then show ?thesis
    using p GenerateRecord
    by (auto simp: isProcessed_eq generateRecord_def Let_def processedIn_Put_other)
next
  case (ProcessBatch batchSize scanOk nowAt putOk)
  then show ?thesis
    using p by (simp add: isProcessed_eq processedIn_processPendingRecords)
next
  case (UpdateOne now putOk r)
  then show ?thesis
    using p by (simp add: isProcessed_eq processedIn_updateRecord)
next
  case (CreateJob uuid now)
  then show ?thesis
    using p by (simp add: isProcessed_eq createJobHandler_def Let_def)
next
  case (RunJob jobID now scanOk nowAt putOk)
  then show ?thesis
    using p
    by (simp add: isProcessed_eq records_processJob processedIn_processPendingRecords
             split: option.splits)
next
  case (Cleanup parseTime formatTime now delOk commitOk cutoffStr)
  let ?sw = "sweep delOk (cutoffTime parseTime now cutoffStr) (records s) (records s) 0"
  have rec: "records (apply_op x s) = (if commitOk then fst ?sw else records s)"
    using Cleanup by (simp add: cleanupOldRecords_def Let_def split_beta)
  show ?thesis
  proof (cases commitOk)
    case True
    with rec present p show ?thesis
      by (simp add: isProcessed_eq processedIn_sweep)
  next
    case False
    with rec p show ?thesis by (simp add: isProcessed_eq)
  qed
qed

lemma flips_all_true: "\<forall>x \<in> set bs. x \<Longrightarrow> flips bs = 0"
  by (induction bs rule: flips.induct) auto

lemma run_nonempty: "run ops s \<noteq> []"
  by (cases ops) auto

lemma hd_run: "hd (run ops s) = s"
  by (cases ops) auto

lemma isProcessed_map: "map (isProcessed k) ts = map (processedIn k) (map records ts)"
  by (simp add: isProcessed_eq)

lemma run_stays_processed:
  assumes "run_ok ops s" and "\<forall>t \<in> set (run ops s). k \<in> fst ` set (records t)"
    and "isProcessed k s"
  shows "\<forall>t \<in> set (run ops s). isProcessed k t"
  using assms
proof (induction ops arbitrary: s)
  case Nil
  then show ?case by simp
next
  case (Cons x xs)
  have next_in: "apply_op x s \<in> set (run xs (apply_op x s))"
    by (cases xs) auto
  have "isProcessed k (apply_op x s)"
    using Cons.prems next_in by (intro isProcessed_step) auto
  with Cons.IH[of "apply_op x s"] Cons.prems show ?case by auto
qed

lemma run_flips:
  assumes "run_ok ops s" and "\<forall>t \<in> set (run ops s). k \<in> fst ` set (records t)"
  shows "flips (map (isProcessed k) (run ops s)) \<le> 1
       \<and> (\<not> isProcessed k s \<and> isProcessed k (last (run ops s)) \<longrightarrow>
            flips (map (isProcessed k) (run ops s)) = 1)"
  using assms
proof (induction ops arbitrary: s)
  case Nil
  then show ?case by simp
next
  case (Cons x xs)
  let ?s' = "apply_op x s"
  obtain rest where rest: "run xs ?s' = ?s' # rest"
    by (cases xs) auto
  have ok': "run_ok xs ?s'" and pres': "\<forall>t \<in> set (run xs ?s'). k \<in> fst ` set (records t)"
    using Cons.prems by auto
  have fl: "flips (map (isProcessed k) (run (x # xs) s)) =
              (if \<not> isProcessed k s \<and> isProcessed k ?s' then 1 else 0) +
              flips (map (isProcessed k) (run xs ?s'))"
    by (simp add: rest)
  have lst: "last (run (x # xs) s) = last (run xs ?s')"
    by (simp add: rest)
  show ?case
  proof (cases "isProcessed k ?s'")
    case True
    have "\<forall>t \<in> set (run xs ?s'). isProcessed k t"
      using ok' pres' True by (rule run_stays_processed)
    then have "flips (map (isProcessed k) (run xs ?s')) = 0"
      by (intro flips_all_true) auto
    with fl True show ?thesis by auto
  next
    case False
    have "\<not> isProcessed k s"
      using False isProcessed_step[of x s k] Cons.prems pres' rest by auto
    with fl False Cons.IH[OF ok' pres'] lst show ?thesis by auto
  qed
qed

text \<open>
  C4. Take any sequence of operations (create record, generated record, batch processing, a
  single update of a batch in flight, job creation, job run, cleanup) in which generated
  identifiers are new, and a key that is in the bucket in every state of the run, that is,
  up to its deletion. If the key holds a processed record in the first state, it holds a
  processed record in every state of the run. Along the run the record changes from not
  processed to processed at most once, and exactly once when it is not processed at the start
  and processed at the end.
\<close>

theorem processed_never_reverts:
  assumes "run_ok ops s" and "\<forall>t \<in> set (run ops s). k \<in> fst ` set (records t)"
  shows "(isProcessed k s \<longrightarrow> (\<forall>t \<in> set (run ops s). isProcessed k t))
       \<and> flips (map (isProcessed k) (run ops s)) \<le> 1
       \<and> (\<not> isProcessed k s \<and> isProcessed k (last (run ops s)) \<longrightarrow>
            flips (map (isProcessed k) (run ops s)) = 1)"
  using run_stays_processed[OF assms] run_flips[OF assms] by blast

lemma run_sampleOps:
  "map records (run sampleOps onePending) =
     [[(''r1'', Doc (sampleRecord ''r1'' (99 * hour)))],
      [(''r1'', Doc (sampleRecord ''r1'' (99 * hour))),
       (''r2'', Doc (clientBody\<lparr>ID := ''r2'', Timestamp := 99 * hour, Processed := False\<rparr>))],
      [(''r1'', Doc (doneRecord ''r1'' (99 * hour) 2000)),
       (''r2'', Doc (clientBody\<lparr>ID := ''r2'', Timestamp := 99 * hour, Processed := False\<rparr>))],
      [(''r1'', Doc (doneRecord ''r1'' (99 * hour) 2000)),
       (''r2'', Doc (clientBody\<lparr>ID := ''r2'', Timestamp := 99 * hour, Processed := False\<rparr>))],
      [(''r1'', Doc (doneRecord ''r1'' (99 * hour) 2000)),
       (''r2'', Doc (clientBody\<lparr>ID := ''r2'', Timestamp := 99 * hour, Processed := False\<rparr>))],
      [(''r1'', Doc (doneRecord ''r1'' (99 * hour) 2000)),
       (''r2'', Doc (clientBody\<lparr>ID := ''r2'', Timestamp := 99 * hour, Processed := False\<rparr>\<lparr>Processed := True, ProcessedAt := Some 2000\<rparr>))]]"
  by (simp add: sampleOps_def onePending_def createRecordHandler_def processPendingRecords_def
        cleanupOldRecords_def createJobHandler_def processJob_def updateRecord_def Let_def
        json_Marshal_def sampleRecord_def doneRecord_def clientBody_def cutoffTime_def sampleParse_def hour_def
        sampleClock_def allOk_def Delete_def)

lemma run_laterOps:
  "map records (run laterOps oneProcessed) =
     [[(''r1'', Doc (doneRecord ''r1'' (99 * hour) 2000)),
       (''r2'', Doc (sampleRecord ''r2'' (10 * hour)))],
      [(''r1'', Doc (doneRecord ''r1'' (99 * hour) 2000))],
      [(''r1'', Doc (doneRecord ''r1'' (99 * hour) 2000)),
       (''r3'', Doc \<lparr>ID = ''r3'', Type = ''metric'', Data = Map.empty, Timestamp = 100 * hour,
                     Processed = False, ProcessedAt = None\<rparr>)],
      [(''r1'', Doc (doneRecord ''r1'' (99 * hour) 2000)),
       (''r2'', Doc (doneRecord ''r2'' (10 * hour) (100 * hour))),
       (''r3'', Doc \<lparr>ID = ''r3'', Type = ''metric'', Data = Map.empty, Timestamp = 100 * hour,
                     Processed = False, ProcessedAt = None\<rparr>)],
      [(''r1'', Doc (doneRecord ''r1'' (99 * hour) 2000)),
       (''r2'', Doc (doneRecord ''r2'' (10 * hour) (100 * hour))),
       (''r3'', Doc \<lparr>ID = ''r3'', Type = ''metric'', Data = Map.empty, Timestamp = 100 * hour,
                     Processed = False, ProcessedAt = None\<rparr>)]]"
  by (simp add: laterOps_def oneProcessed_def doneRecord_def generateRecord_def processPendingRecords_def
        cleanupOldRecords_def createJobHandler_def processJob_def updateRecord_def Let_def
        json_Marshal_def sampleRecord_def cutoffTime_def sampleParse_def hour_def
        sampleClock_def allOk_def Delete_def)

theorem processed_never_reverts_witness:
  "run_ok sampleOps onePending
   \<and> map (\<lambda>t. map fst (records t)) (run sampleOps onePending) =
       [[''r1''], [''r1'', ''r2''], [''r1'', ''r2''], [''r1'', ''r2''], [''r1'', ''r2''],
        [''r1'', ''r2'']]
   \<and> map (isProcessed ''r1'') (run sampleOps onePending) = [False, False, True, True, True, True]
   \<and> flips (map (isProcessed ''r1'') (run sampleOps onePending)) = 1
   \<and> run_ok laterOps oneProcessed
   \<and> map (\<lambda>t. map fst (records t)) (run laterOps oneProcessed) =
       [[''r1'', ''r2''], [''r1''], [''r1'', ''r3''], [''r1'', ''r2'', ''r3''],
        [''r1'', ''r2'', ''r3'']]
   \<and> map (isProcessed ''r1'') (run laterOps oneProcessed) = [True, True, True, True, True]"
proof -
  have a1: "run_ok sampleOps onePending"
    by (simp add: sampleOps_def onePending_def)
  have ak: "map (\<lambda>t. map fst (records t)) (run sampleOps onePending) =
       [[''r1''], [''r1'', ''r2''], [''r1'', ''r2''], [''r1'', ''r2''], [''r1'', ''r2''],
        [''r1'', ''r2'']]"
    using arg_cong[OF run_sampleOps, of "map (map fst)"] by (simp add: comp_def)
  have ap: "map (isProcessed ''r1'') (run sampleOps onePending) = [False, False, True, True, True, True]"
    unfolding isProcessed_map run_sampleOps
    by (simp add: processedIn_def Get_def sampleRecord_def doneRecord_def)
  have a2: "\<forall>t \<in> set (run sampleOps onePending). ''r1'' \<in> fst ` set (records t)"
  proof -
    have "\<forall>ks \<in> set (map (\<lambda>t. map fst (records t)) (run sampleOps onePending)). ''r1'' \<in> set ks"
      unfolding ak by simp
    then show ?thesis by simp
  qed
  have a3: "\<not> isProcessed ''r1'' onePending"
    using arg_cong[OF ap, of hd] by (simp add: hd_map run_nonempty hd_run)
  have a4: "isProcessed ''r1'' (last (run sampleOps onePending))"
    using arg_cong[OF ap, of last] by (simp add: last_map run_nonempty)
  have b1: "run_ok laterOps oneProcessed"
    by (simp add: laterOps_def oneProcessed_def doneRecord_def cleanupOldRecords_def Let_def cutoffTime_def
          sampleParse_def hour_def sampleRecord_def allOk_def Delete_def)
  have bk: "map (\<lambda>t. map fst (records t)) (run laterOps oneProcessed) =
       [[''r1'', ''r2''], [''r1''], [''r1'', ''r3''], [''r1'', ''r2'', ''r3''],
        [''r1'', ''r2'', ''r3'']]"
    using arg_cong[OF run_laterOps, of "map (map fst)"] by (simp add: comp_def)
  have b2: "\<forall>t \<in> set (run laterOps oneProcessed). ''r1'' \<in> fst ` set (records t)"
  proof -
    have "\<forall>ks \<in> set (map (\<lambda>t. map fst (records t)) (run laterOps oneProcessed)). ''r1'' \<in> set ks"
      unfolding bk by simp
    then show ?thesis by simp
  qed
  have b3: "isProcessed ''r1'' oneProcessed"
    by (simp add: isProcessed_def processedIn_def oneProcessed_def doneRecord_def Get_def)
  from processed_never_reverts[OF a1 a2] a3 a4
  have c1: "flips (map (isProcessed ''r1'') (run sampleOps onePending)) = 1"
    by blast
  from processed_never_reverts[OF b1 b2] b3
  have "\<forall>t \<in> set (run laterOps oneProcessed). isProcessed ''r1'' t"
    by blast
  then have "map (isProcessed ''r1'') (run laterOps oneProcessed) =
             map (\<lambda>t. True) (run laterOps oneProcessed)"
    by (intro map_cong) auto
  also have "\<dots> = map (\<lambda>ks. True) (map (\<lambda>t. map fst (records t)) (run laterOps oneProcessed))"
    by (simp add: comp_def)
  also have "\<dots> = [True, True, True, True, True]"
    unfolding bk by simp
  finally have c2: "map (isProcessed ''r1'') (run laterOps oneProcessed) = [True, True, True, True, True]" .
  from a1 ak ap c1 b1 bk c2 show ?thesis by blast
qed

end
